theory Spec2Isabelle
  imports Main "HOL-Library.Word" "HOL-Library.Sublist"
begin

unbundle bit_operations_syntax

section \<open>The speaker: sampling timer, ring buffer and audio callback\<close>

text \<open>
  The file-scope variables of \<^verbatim>\<open>main.cpp\<close> that the three audio callbacks share:
  \<^verbatim>\<open>speaker_value\<close> (uint8_t), \<^verbatim>\<open>samples\<close> (uint16_t[nsamples]) and the two cursors
  \<^verbatim>\<open>cur_sample\<close> and \<^verbatim>\<open>out_sample\<close> (uint16_t, held as naturals with the 16-bit
  wrap-around written out where they are assigned).
\<close>

datatype error = OutOfBounds

record sim_state =
  speaker_value :: "8 word"
  samples :: "16 word list"
  cur_sample :: nat
  out_sample :: nat

definition nsamples :: nat where
  "nsamples = 1024"

definition audio_frequency :: nat where
  "audio_frequency = 8000"

text \<open>\<^verbatim>\<open>static avr_cycle_count_t next = 16000000 / audio_frequency;\<close>\<close>

definition next_cycles :: nat where
  "next_cycles = 16000000 div audio_frequency"

text \<open>The static initialisers: a zeroed array, both cursors 0, speaker level 0.\<close>

definition init_state :: sim_state where
  "init_state = \<lparr>speaker_value = 0, samples = replicate nsamples 0, cur_sample = 0, out_sample = 0\<rparr>"

text \<open>\<^verbatim>\<open>speaker_hook\<close>: the 32-bit IRQ value is stored into the 8-bit \<^verbatim>\<open>speaker_value\<close>.\<close>

definition speaker_hook :: "sim_state \<Rightarrow> 32 word \<Rightarrow> sim_state" where
  "speaker_hook s v = s\<lparr>speaker_value := ucast v\<rparr>"

text \<open>
  The value stored by \<^verbatim>\<open>samples[cur_sample++] = speaker_value * 0x4000\<close>: the product is
  computed in \<^verbatim>\<open>int\<close> (at most 255 * 16384, no overflow) and truncated to 16 bits by the
  assignment.
\<close>

definition speaker_sample :: "8 word \<Rightarrow> 16 word" where
  "speaker_sample v = word_of_nat (unat v * 0x4000)"

text \<open>
  \<^verbatim>\<open>speaker_timer\<close>: store at the write cursor, post-increment it (uint16_t), reduce it
  modulo \<^verbatim>\<open>nsamples\<close>, return \<^verbatim>\<open>when + next\<close> (a 64-bit cycle count). A cursor outside the
  array would be a write out of bounds.
\<close>

definition speaker_timer :: "sim_state \<Rightarrow> nat \<Rightarrow> error + (sim_state \<times> nat)" where
  "speaker_timer s when =
     (if cur_sample s < nsamples then
        Inr (s\<lparr>samples := (samples s)[cur_sample s := speaker_sample (speaker_value s)],
               cur_sample := ((cur_sample s + 1) mod 2 ^ 16) mod nsamples\<rparr>,
             (when + next_cycles) mod 2 ^ 64)
      else Inl OutOfBounds)"

text \<open>
  The bytes of the \<^verbatim>\<open>samples\<close> array as \<^verbatim>\<open>memcpy\<close> sees them: two bytes per sample, low
  byte first (the little-endian hosts that SDL's \<^verbatim>\<open>AUDIO_S16\<close> format names).
\<close>

definition sample_bytes :: "16 word \<Rightarrow> 8 word list" where
  "sample_bytes w = [ucast w, ucast (drop_bit 8 w)]"

definition mem_bytes :: "16 word list \<Rightarrow> 8 word list" where
  "mem_bytes xs = concat (map sample_bytes xs)"

text \<open>
  \<^verbatim>\<open>audio_callback\<close>: \<^verbatim>\<open>memcpy(stream, samples + out_sample, len)\<close> copies \<^verbatim>\<open>len\<close> bytes
  starting at sample \<^verbatim>\<open>out_sample\<close>, without wrapping; then the read cursor advances by
  \<^verbatim>\<open>len / sizeof(*samples)\<close> (uint16_t) and is reduced modulo \<^verbatim>\<open>nsamples\<close>. A negative
  \<^verbatim>\<open>len\<close> converts to a huge \<^verbatim>\<open>size_t\<close>; that and any copy reaching past the end of the
  array is a read out of bounds. The result is the new state and the bytes written to
  \<^verbatim>\<open>stream\<close>.
\<close>

definition audio_callback :: "sim_state \<Rightarrow> int \<Rightarrow> error + (sim_state \<times> 8 word list)" where
  "audio_callback s len =
     (if len < 0 \<or> 2 * nsamples < 2 * out_sample s + nat len then Inl OutOfBounds
      else Inr (s\<lparr>out_sample := ((out_sample s + nat len div 2) mod 2 ^ 16) mod nsamples\<rparr>,
                take (nat len) (drop (2 * out_sample s) (mem_bytes (samples s)))))"

text \<open>
  The three callbacks as events, in the order in which they happen to run: a pin change
  (\<^verbatim>\<open>speaker_hook\<close> with the IRQ value), a timer tick (\<^verbatim>\<open>speaker_timer\<close> with its deadline)
  and an audio pull (\<^verbatim>\<open>audio_callback\<close> with the byte count). A run threads the state
  through the events and collects the bytes handed to the audio device.
\<close>

datatype event = Pin "32 word" | Tick nat | Pull int

fun step :: "sim_state \<Rightarrow> event \<Rightarrow> error + (sim_state \<times> 8 word list)" where
  "step s (Pin v) = Inr (speaker_hook s v, [])"
| "step s (Tick when) =
     (case speaker_timer s when of Inl e \<Rightarrow> Inl e | Inr (s', w) \<Rightarrow> Inr (s', []))"
| "step s (Pull len) = audio_callback s len"

fun run :: "sim_state \<Rightarrow> event list \<Rightarrow> error + (sim_state \<times> 8 word list)" where
  "run s [] = Inr (s, [])"
| "run s (e # es) =
     (case step s e of
        Inl err \<Rightarrow> Inl err
      | Inr (s', out) \<Rightarrow>
          (case run s' es of
             Inl err \<Rightarrow> Inl err
           | Inr (s'', rest) \<Rightarrow> Inr (s'', out @ rest)))"

text \<open>
  Producing: the speaker pin takes the level \<open>v\<close>, then the timer fires with deadline
  \<open>w\<close>, once for every pair of the list. Consuming: one audio pull of \<open>2 * c\<close> bytes
  (\<open>c\<close> whole samples) for every count of the list.
\<close>

definition produce :: "(32 word \<times> nat) list \<Rightarrow> event list" where
  "produce pvs = concat (map (\<lambda>(v, w). [Pin v, Tick w]) pvs)"

definition consume :: "nat list \<Rightarrow> event list" where
  "consume counts = map (\<lambda>c. Pull (2 * int c)) counts"

text \<open>The samples that a list of productions appends, in production order.\<close>

definition produced :: "(32 word \<times> nat) list \<Rightarrow> 16 word list" where
  "produced pvs = map (\<lambda>(v, w). speaker_sample (ucast v)) pvs"

text \<open>The bytes that reach the audio device over a run from the initial state.\<close>

definition audio_out :: "event list \<Rightarrow> error + 8 word list" where
  "audio_out es = (case run init_state es of Inl err \<Rightarrow> Inl err | Inr (s, out) \<Rightarrow> Inr out)"

text \<open>
  The ring buffer's \<open>produce\<close> in the specification's words, to compare the code with:
  "writes one sample at write-cursor, advances write-cursor by 1 mod C". A ring is the
  array together with the write cursor.
\<close>

definition spec_produce :: "16 word \<Rightarrow> 16 word list \<times> nat \<Rightarrow> 16 word list \<times> nat" where
  "spec_produce x ring = ((fst ring)[snd ring := x], (snd ring + 1) mod nsamples)"

text \<open>The array has its declared size and the write cursor points into it.\<close>

definition state_ok :: "sim_state \<Rightarrow> bool" where
  "state_ok s = (length (samples s) = nsamples \<and> cur_sample s < nsamples)"

text \<open>
  The sample that one invocation of \<^verbatim>\<open>speaker_timer\<close> leaves at the position the write
  cursor had before it.
\<close>

definition appended_sample :: "sim_state \<Rightarrow> nat \<Rightarrow> 16 word option" where
  "appended_sample s when =
     (case speaker_timer s when of
        Inl e \<Rightarrow> None
      | Inr (s', w) \<Rightarrow> Some (samples s' ! cur_sample s))"

subsection \<open>The cycle timer that drives the sampler\<close>

text \<open>
  \<^verbatim>\<open>main\<close> sets the core's frequency to 16000000 with either loader and registers
  \<^verbatim>\<open>speaker_timer\<close> with \<^verbatim>\<open>avr_cycle_timer_register_usec(avr, 125, ...)\<close>.
\<close>

definition cpu_frequency :: nat where
  "cpu_frequency = 16000000"

text \<open>
  Modelled from the spec: the emulation core's conversion of microseconds to cycles at
  the core's frequency (simavr's \<^verbatim>\<open>avr_usec_to_cycles\<close>; the core's sources are not part
  of this repository). The spec gives the sampling interval as "one sample per fixed
  virtual-time interval corresponding to 8000 samples/sec of emulated time".
\<close>

definition avr_usec_to_cycles :: "nat \<Rightarrow> nat" where
  "avr_usec_to_cycles usec = cpu_frequency * usec div 1000000"

text \<open>The timer is registered at cycle 0, 125 microseconds ahead.\<close>

definition first_deadline :: nat where
  "first_deadline = avr_usec_to_cycles 125"

text \<open>
  Modelled from the spec: the emulation core's cycle-timer scheduler (not part of this
  repository), a "cycle-scheduled callback registration (fire after N virtual cycles,
  callback returns the next deadline)". A timer is due when its deadline is not after
  the current cycle; the callback is then invoked with its deadline and scheduled again
  at the deadline it returns, and a returned deadline that is not later than its own
  ends the timer. \<open>run_timer level s when cycle\<close> runs the speaker timer, pending with
  deadline \<open>when\<close>, until the core's cycle counter stands at \<open>cycle\<close>; \<open>level w\<close> is the
  value that the speaker pins last sent to \<^verbatim>\<open>speaker_hook\<close> before the deadline \<open>w\<close>. The
  result is the final state and the number of invocations of \<^verbatim>\<open>speaker_timer\<close>.
\<close>

function run_timer :: "(nat \<Rightarrow> 32 word) \<Rightarrow> sim_state \<Rightarrow> nat \<Rightarrow> nat \<Rightarrow> error + (sim_state \<times> nat)" where
  "run_timer level s when cycle =
     (if when \<le> cycle then
        (case speaker_timer (speaker_hook s (level when)) when of
           Inl e \<Rightarrow> Inl e
         | Inr (s', w) \<Rightarrow>
             if w \<le> when then Inr (s', 1)
             else (case run_timer level s' w cycle of
                     Inl e \<Rightarrow> Inl e
                   | Inr (s'', n) \<Rightarrow> Inr (s'', Suc n)))
      else Inr (s, 0))"
  by pat_completeness auto
termination
  by (relation "measure (\<lambda>(level, s, when, cycle). cycle + 1 - when)") auto

declare run_timer.simps [simp del]

text \<open>The first \<open>n\<close> deadlines from \<open>when\<close> on, each with the speaker level at that time.\<close>

definition deadlines :: "(nat \<Rightarrow> 32 word) \<Rightarrow> nat \<Rightarrow> nat \<Rightarrow> (32 word \<times> nat) list" where
  "deadlines level when n = map (\<lambda>k. (level (when + next_cycles * k), when + next_cycles * k)) [0..<n]"

section \<open>The display: bitmap to pixels\<close>

text \<open>
  \<^verbatim>\<open>draw_display\<close>: the two nested loops write one 32-bit pixel after the other through
  \<^verbatim>\<open>*p++\<close>. The controller's \<^verbatim>\<open>vram\<close> (declared in \<^verbatim>\<open>ssd1306_virt.h\<close>, which is not among
  the sources) is taken as a function of page and column; the loops only read pages
  0..7 and columns 0..127. The result is the \<^verbatim>\<open>pixels\<close> array handed to
  \<^verbatim>\<open>SDL_UpdateTexture\<close>.
\<close>

definition draw_display :: "(nat \<Rightarrow> nat \<Rightarrow> 8 word) \<Rightarrow> 32 word list" where
  "draw_display vram =
     fold (\<lambda>y p.
        fold (\<lambda>x p. p @ [if drop_bit (y AND 7) (vram (y div 8) x) AND 1 \<noteq> 0 then 0xffffff else 0])
          [0..<128] p)
       [0..<64] []"

text \<open>
  The texture is updated with a pitch of \<^verbatim>\<open>128 * 4\<close> bytes: the pixel at column \<open>x\<close> of
  row \<open>y\<close> is element \<open>y * 128 + x\<close>.
\<close>

definition pixel :: "32 word list \<Rightarrow> nat \<Rightarrow> nat \<Rightarrow> 32 word" where
  "pixel frame x y = frame ! (y * 128 + x)"

section \<open>The event loop: keys to pins\<close>

text \<open>
  The \<^verbatim>\<open>Button\<close> enumeration, the scancodes that the switch names (every other scancode
  is \<open>SDL_SCANCODE_OTHER\<close> with its code) and the event types that it distinguishes.
\<close>

datatype button = BUTTON_UP | BUTTON_DOWN | BUTTON_LEFT | BUTTON_RIGHT | BUTTON_A | BUTTON_B

datatype scancode =
  SDL_SCANCODE_UP | SDL_SCANCODE_DOWN | SDL_SCANCODE_LEFT | SDL_SCANCODE_RIGHT
| SDL_SCANCODE_A | SDL_SCANCODE_S | SDL_SCANCODE_OTHER nat

datatype event_type = SDL_QUIT | SDL_KEYDOWN | SDL_KEYUP | SDL_OTHER_EVENT nat

record sdl_event =
  ev_type :: event_type
  ev_scancode :: scancode

text \<open>
  The port and bit that each button's IRQ is connected to by the six calls of
  \<^verbatim>\<open>avr_connect_irq\<close>.
\<close>

type_synonym pin = "char \<times> nat"

fun button_pin :: "button \<Rightarrow> pin" where
  "button_pin BUTTON_UP = (CHR ''F'', 7)"
| "button_pin BUTTON_DOWN = (CHR ''F'', 4)"
| "button_pin BUTTON_LEFT = (CHR ''F'', 5)"
| "button_pin BUTTON_RIGHT = (CHR ''F'', 6)"
| "button_pin BUTTON_A = (CHR ''E'', 6)"
| "button_pin BUTTON_B = (CHR ''B'', 4)"

text \<open>What the event loop writes: the \<^verbatim>\<open>running\<close> flag and the levels of the input pins.\<close>

record loop_state =
  running :: bool
  pins :: "pin \<Rightarrow> 8 word"

text \<open>
  Modelled from the spec: \<^verbatim>\<open>avr_raise_irq\<close> of the emulation core (not among the sources),
  "an injectable virtual input-pin interface (raise a named port+bit to level 0/1)":
  raising a button's IRQ sets the level of the pin it is connected to.
\<close>

definition avr_raise_irq :: "loop_state \<Rightarrow> button \<Rightarrow> 8 word \<Rightarrow> loop_state" where
  "avr_raise_irq s b v = s\<lparr>pins := (pins s)(button_pin b := v)\<rparr>"

text \<open>
  The body shared by \<^verbatim>\<open>case SDL_KEYDOWN: case SDL_KEYUP:\<close>: the value is 0 for a key
  press and 1 for a release, and the inner switch raises the IRQ of the button whose
  scancode the event carries; its \<^verbatim>\<open>default\<close> does nothing.
\<close>

definition key_event :: "loop_state \<Rightarrow> sdl_event \<Rightarrow> loop_state" where
  "key_event s event =
     (let v = (if ev_type event = SDL_KEYDOWN then 0 else 1) in
      case ev_scancode event of
        SDL_SCANCODE_UP \<Rightarrow> avr_raise_irq s BUTTON_UP v
      | SDL_SCANCODE_DOWN \<Rightarrow> avr_raise_irq s BUTTON_DOWN v
      | SDL_SCANCODE_LEFT \<Rightarrow> avr_raise_irq s BUTTON_LEFT v
      | SDL_SCANCODE_RIGHT \<Rightarrow> avr_raise_irq s BUTTON_RIGHT v
      | SDL_SCANCODE_A \<Rightarrow> avr_raise_irq s BUTTON_A v
      | SDL_SCANCODE_S \<Rightarrow> avr_raise_irq s BUTTON_B v
      | SDL_SCANCODE_OTHER c \<Rightarrow> s)"

text \<open>The outer \<^verbatim>\<open>switch(event.type)\<close> of the event loop.\<close>

definition handle_event :: "loop_state \<Rightarrow> sdl_event \<Rightarrow> loop_state" where
  "handle_event s event =
     (case ev_type event of
        SDL_QUIT \<Rightarrow> s\<lparr>running := False\<rparr>
      | SDL_KEYDOWN \<Rightarrow> key_event s event
      | SDL_KEYUP \<Rightarrow> key_event s event
      | SDL_OTHER_EVENT t \<Rightarrow> s)"

text \<open>
  The scancode-to-button table that the labels of the inner switch and the IRQ each
  branch raises amount to.
\<close>

definition key_bindings :: "(scancode \<times> button) list" where
  "key_bindings =
     [(SDL_SCANCODE_UP, BUTTON_UP), (SDL_SCANCODE_DOWN, BUTTON_DOWN),
      (SDL_SCANCODE_LEFT, BUTTON_LEFT), (SDL_SCANCODE_RIGHT, BUTTON_RIGHT),
      (SDL_SCANCODE_A, BUTTON_A), (SDL_SCANCODE_S, BUTTON_B)]"

section \<open>Start-up: arguments, firmware, host subsystems\<close>

text \<open>
  The C library's \<^verbatim>\<open>strstr\<close>: the offset of the first occurrence of \<open>needle\<close> in
  \<open>haystack\<close>, \<open>None\<close> for the null pointer; an empty needle is found at offset 0.
\<close>

fun strstr :: "string \<Rightarrow> string \<Rightarrow> nat option" where
  "strstr [] needle = (if needle = [] then Some 0 else None)"
| "strstr (c # cs) needle =
     (if prefix needle (c # cs) then Some 0 else map_option Suc (strstr cs needle))"

text \<open>The calls that \<^verbatim>\<open>main\<close> makes while it initialises, in order.\<close>

datatype init_step =
  Avr_make_mcu | Avr_init
| Elf_read_firmware string | Avr_load_firmware
| Read_ihex_file string | Avr_loadcode
| Ssd1306_init | Ssd1306_connect | Speaker_register
| SDL_Init | SDL_CreateRGBSurface | SDL_CreateWindow | SDL_CreateRenderer | SDL_CreateTexture
| SDL_OpenAudio

text \<open>
  \<^verbatim>\<open>if (strstr(argv[1], ".elf")) { elf_read_firmware ...; avr_load_firmware ... }
  else { read_ihex_file ...; avr_loadcode ... }\<close>
\<close>

definition load_firmware :: "string \<Rightarrow> init_step list" where
  "load_firmware path =
     (if strstr path ''.elf'' \<noteq> None then [Elf_read_firmware path, Avr_load_firmware]
      else [Read_ihex_file path, Avr_loadcode])"





section \<open>Properties of the ring buffer\<close>

lemma run_append:
  "run s (es1 @ es2) =
     (case run s es1 of
        Inl err \<Rightarrow> Inl err
      | Inr (s', o1) \<Rightarrow>
          (case run s' es2 of Inl err \<Rightarrow> Inl err | Inr (s'', o2) \<Rightarrow> Inr (s'', o1 @ o2)))"
  by (induction es1 arbitrary: s) (auto split: sum.splits)

lemma nsamples_pos: "0 < nsamples"
  by (simp add: nsamples_def)

lemma speaker_timer_ok:
  assumes "state_ok s"
  shows "speaker_timer s w =
           Inr (s\<lparr>samples := (samples s)[cur_sample s := speaker_sample (speaker_value s)],
                  cur_sample := (cur_sample s + 1) mod nsamples\<rparr>,
                (w + next_cycles) mod 2 ^ 64)"
proof -
  have "((cur_sample s + 1) mod 2 ^ 16) mod nsamples = (cur_sample s + 1) mod nsamples"
    by (simp add: nsamples_def mod_mod_cancel)
  moreover have "cur_sample s < nsamples"
    using assms by (simp add: state_ok_def)
  ultimately show ?thesis
    unfolding speaker_timer_def by simp
qed

lemma speaker_hook_ok: "state_ok s \<Longrightarrow> state_ok (speaker_hook s v)"
  by (simp add: state_ok_def speaker_hook_def)

lemma run_pin_tick:
  assumes "state_ok s"
  shows "run s (Pin v # Tick w # es) =
           run (s\<lparr>speaker_value := ucast v,
                  samples := (samples s)[cur_sample s := speaker_sample (ucast v)],
                  cur_sample := (cur_sample s + 1) mod nsamples\<rparr>) es"
  using speaker_timer_ok [OF speaker_hook_ok [OF assms], of v w]
  by (simp add: speaker_hook_def split: sum.splits)

lemma produce_Cons: "produce ((v, w) # pvs) = Pin v # Tick w # produce pvs"
  by (simp add: produce_def)

lemma produce_Nil: "produce [] = []"
  by (simp add: produce_def)

lemma produce_append: "produce (xs @ ys) = produce xs @ produce ys"
  by (simp add: produce_def)

lemma run_produce_ok:
  assumes "state_ok s"
  shows "\<exists>s'. run s (produce pvs) = Inr (s', []) \<and> state_ok s'
           \<and> cur_sample s' = (cur_sample s + length pvs) mod nsamples
           \<and> out_sample s' = out_sample s"
  using assms
proof (induction pvs arbitrary: s)
  case Nil
  then show ?case by (simp add: produce_Nil state_ok_def)
next
  case (Cons p pvs)
  obtain v w where p: "p = (v, w)" by (cases p)
  let ?s1 = "s\<lparr>speaker_value := ucast v,
                  samples := (samples s)[cur_sample s := speaker_sample (ucast v)],
                  cur_sample := (cur_sample s + 1) mod nsamples\<rparr>"
  have ok1: "state_ok ?s1"
    using Cons.prems by (simp add: state_ok_def nsamples_pos)
  from Cons.IH [OF ok1] obtain s' where
    "run ?s1 (produce pvs) = Inr (s', [])" "state_ok s'"
    "cur_sample s' = (cur_sample ?s1 + length pvs) mod nsamples"
    "out_sample s' = out_sample ?s1"
    by blast
  then show ?case
    using Cons.prems by (simp add: p produce_Cons run_pin_tick mod_simps del: run.simps)
qed

lemma run_produce_nowrap:
  assumes "state_ok s" and "cur_sample s + length pvs \<le> nsamples"
    and "run s (produce pvs) = Inr (s', out)"
  shows "samples s' = take (cur_sample s) (samples s) @ produced pvs
                        @ drop (cur_sample s + length pvs) (samples s)"
  using assms
proof (induction pvs arbitrary: s)
  case Nil
  then show ?case by (simp add: produce_Nil produced_def)
next
  case (Cons p pvs)
  obtain v w where p: "p = (v, w)" by (cases p)
  let ?c = "cur_sample s"
  let ?s1 = "s\<lparr>speaker_value := ucast v,
                  samples := (samples s)[?c := speaker_sample (ucast v)],
                  cur_sample := (?c + 1) mod nsamples\<rparr>"
  have len: "length (samples s) = nsamples" and c: "?c < nsamples"
    using Cons.prems(1) by (simp_all add: state_ok_def)
  have ok1: "state_ok ?s1"
    using Cons.prems(1) by (simp add: state_ok_def nsamples_pos)
  have r1: "run ?s1 (produce pvs) = Inr (s', out)"
    using Cons.prems by (simp add: p produce_Cons run_pin_tick del: run.simps)
  show ?case
  proof (cases pvs)
    case Nil
    with r1 have "s' = ?s1" by (simp add: produce_Nil)
    then have "samples s' = (samples s)[?c := speaker_sample (ucast v)]" by simp
    also have "\<dots> = take ?c (samples s) @ [speaker_sample (ucast v)] @ drop (?c + 1) (samples s)"
      using c len by (simp add: upd_conv_take_nth_drop)
    finally show ?thesis by (simp add: Nil p produced_def)
  next
    case (Cons q qs)
    then have lt: "?c + 1 < nsamples" using Cons.prems(2) \<open>cur_sample s + length (p # pvs) \<le> nsamples\<close> by simp
    then have c1: "cur_sample ?s1 = ?c + 1" by simp
    have "cur_sample ?s1 + length pvs \<le> nsamples"
      using \<open>cur_sample s + length (p # pvs) \<le> nsamples\<close> c1 by simp
    from Cons.IH(1) [OF ok1 this r1]
    have "samples s' = take (?c + 1) ((samples s)[?c := speaker_sample (ucast v)]) @ produced pvs
            @ drop (?c + 1 + length pvs) ((samples s)[?c := speaker_sample (ucast v)])"
      using c1 by simp
    moreover have "take (?c + 1) ((samples s)[?c := speaker_sample (ucast v)])
                     = take ?c (samples s) @ [speaker_sample (ucast v)]"
      using c len by (simp add: take_Suc_conv_app_nth)
    ultimately show ?thesis
      by (simp add: p produced_def)
  qed
qed


lemma length_mem_bytes: "length (mem_bytes xs) = 2 * length xs"
  by (induction xs) (simp_all add: mem_bytes_def sample_bytes_def)

lemma mem_bytes_append: "mem_bytes (xs @ ys) = mem_bytes xs @ mem_bytes ys"
  by (simp add: mem_bytes_def)

lemma drop_mem_bytes: "drop (2 * n) (mem_bytes xs) = mem_bytes (drop n xs)"
proof (induction xs arbitrary: n)
  case Nil
  then show ?case by (simp add: mem_bytes_def)
next
  case (Cons x xs)
  show ?case
  proof (cases n)
    case 0
    then show ?thesis by simp
  next
    case (Suc m)
    then show ?thesis
      using Cons.IH [of m] by (simp add: mem_bytes_def sample_bytes_def)
  qed
qed

lemma take_mem_bytes: "take (2 * n) (mem_bytes xs) = mem_bytes (take n xs)"
proof (induction xs arbitrary: n)
  case Nil
  then show ?case by (simp add: mem_bytes_def)
next
  case (Cons x xs)
  show ?case
  proof (cases n)
    case 0
    then show ?thesis by (simp add: mem_bytes_def)
  next
    case (Suc m)
    then show ?thesis
      using Cons.IH [of m] by (simp add: mem_bytes_def sample_bytes_def)
  qed
qed

lemma audio_callback_samples:
  assumes "out_sample s + c \<le> nsamples"
  shows "audio_callback s (2 * int c) =
           Inr (s\<lparr>out_sample := (out_sample s + c) mod nsamples\<rparr>,
                mem_bytes (take c (drop (out_sample s) (samples s))))"
proof -
  have n: "nat (2 * int c) = 2 * c" by simp
  have "((out_sample s + c) mod 2 ^ 16) mod nsamples = (out_sample s + c) mod nsamples"
    by (simp add: nsamples_def mod_mod_cancel)
  moreover have "\<not> (2 * int c < 0 \<or> 2 * nsamples < 2 * out_sample s + nat (2 * int c))"
    using assms by simp
  ultimately show ?thesis
    unfolding audio_callback_def n
    by (simp add: take_mem_bytes drop_mem_bytes)
qed

lemma consume_Cons: "consume (c # cs) = Pull (2 * int c) # consume cs"
  by (simp add: consume_def)

lemma run_consume:
  assumes "out_sample s + sum_list counts \<le> nsamples"
  shows "\<exists>s'. run s (consume counts) =
           Inr (s', mem_bytes (take (sum_list counts) (drop (out_sample s) (samples s))))"
  using assms
proof (induction counts arbitrary: s)
  case Nil
  then show ?case by (simp add: consume_def mem_bytes_def)
next
  case (Cons c cs)
  let ?o = "out_sample s"
  let ?s1 = "s\<lparr>out_sample := (?o + c) mod nsamples\<rparr>"
  have c: "?o + c \<le> nsamples" using Cons.prems by simp
  have cb: "audio_callback s (2 * int c) = Inr (?s1, mem_bytes (take c (drop ?o (samples s))))"
    by (rule audio_callback_samples [OF c])
  have rest: "\<exists>s'. run ?s1 (consume cs) =
                Inr (s', mem_bytes (take (sum_list cs) (drop (?o + c) (samples s))))"
  proof (cases "?o + c < nsamples")
    case True
    then have "out_sample ?s1 = ?o + c" by simp
    moreover have "out_sample ?s1 + sum_list cs \<le> nsamples"
      using Cons.prems True by simp
    ultimately show ?thesis using Cons.IH [of ?s1] by simp
  next
    case False
    with c have full: "?o + c = nsamples" by simp
    have "sum_list (c # cs) = c + sum_list cs" by simp
    with full Cons.prems have z: "sum_list cs = 0" by linarith
    have o1: "out_sample ?s1 = 0" using full by simp
    then have "out_sample ?s1 + sum_list cs \<le> nsamples" unfolding z by simp
    from Cons.IH [OF this] show ?thesis unfolding z o1 by simp
  qed
  then obtain s' where
    r: "run ?s1 (consume cs) = Inr (s', mem_bytes (take (sum_list cs) (drop (?o + c) (samples s))))"
    by blast
  have "take (sum_list (c # cs)) (drop ?o (samples s))
          = take c (drop ?o (samples s)) @ take (sum_list cs) (drop (?o + c) (samples s))"
    by (simp add: take_add add.commute)
  then show ?case
    using cb r by (simp add: consume_Cons mem_bytes_append)
qed

lemma init_state_ok: "state_ok init_state"
  by (simp add: state_ok_def init_state_def nsamples_def)



lemma produced_append: "produced (xs @ ys) = produced xs @ produced ys"
  by (simp add: produced_def)

lemma length_produced: "length (produced xs) = length xs"
  by (simp add: produced_def)

lemma run_produce_ring:
  assumes "state_ok s" and "run s (produce pvs) = Inr (s', out)"
  shows "(samples s', cur_sample s') = fold spec_produce (produced pvs) (samples s, cur_sample s)"
  using assms
proof (induction pvs arbitrary: s)
  case Nil
  then show ?case by (simp add: produce_Nil produced_def)
next
  case (Cons p pvs)
  obtain v w where p: "p = (v, w)" by (cases p)
  let ?s1 = "s\<lparr>speaker_value := ucast v,
                  samples := (samples s)[cur_sample s := speaker_sample (ucast v)],
                  cur_sample := (cur_sample s + 1) mod nsamples\<rparr>"
  have ok1: "state_ok ?s1"
    using Cons.prems(1) by (simp add: state_ok_def nsamples_pos)
  have r1: "run ?s1 (produce pvs) = Inr (s', out)"
    using Cons.prems by (simp add: p produce_Cons run_pin_tick del: run.simps)
  from Cons.IH [OF ok1 r1] show ?case
    by (simp add: p produced_def spec_produce_def)
qed

lemma produce_overrun_state:
  assumes len: "length pvs = nsamples + K"
  shows "\<exists>s'. run init_state (produce pvs) = Inr (s', [])
           \<and> samples s' = rotate (nsamples - K mod nsamples) (drop K (produced pvs))
           \<and> out_sample s' = 0"
proof -
  define c where "c = K mod nsamples"
  define A where "A = take K pvs"
  define B where "B = drop K pvs"
  define B1 where "B1 = take (nsamples - c) B"
  define B2 where "B2 = drop (nsamples - c) B"
  have c: "c < nsamples" by (simp add: c_def nsamples_pos)
  have lA: "length A = K" and lB: "length B = nsamples"
    using len by (simp_all add: A_def B_def)
  have lB1: "length B1 = nsamples - c" and lB2: "length B2 = c"
    using lB c by (simp_all add: B1_def B2_def)
  have split: "pvs = A @ B1 @ B2"
    by (simp only: A_def B_def B1_def B2_def append_take_drop_id)
  obtain sa where ra: "run init_state (produce A) = Inr (sa, [])" and oka: "state_ok sa"
    and ca: "cur_sample sa = (cur_sample init_state + length A) mod nsamples"
    and oa: "out_sample sa = out_sample init_state"
    using run_produce_ok [OF init_state_ok, of A] by blast
  have ca': "cur_sample sa = c" using ca lA by (simp add: init_state_def c_def)
  obtain sb where rb: "run sa (produce B1) = Inr (sb, [])" and okb: "state_ok sb"
    and cb: "cur_sample sb = (cur_sample sa + length B1) mod nsamples"
    and ob: "out_sample sb = out_sample sa"
    using run_produce_ok [OF oka, of B1] by blast
  have cb': "cur_sample sb = 0" using cb ca' lB1 c by simp
  have "cur_sample sa + length B1 \<le> nsamples" using ca' lB1 c by simp
  from run_produce_nowrap [OF oka this rb]
  have xb: "samples sb = take c (samples sa) @ produced B1"
    using ca' lB1 c oka by (simp add: state_ok_def)
  obtain sc where rc: "run sb (produce B2) = Inr (sc, [])"
    and oc: "out_sample sc = out_sample sb"
    using run_produce_ok [OF okb, of B2] by blast
  have "cur_sample sb + length B2 \<le> nsamples" using cb' lB2 c by simp
  from run_produce_nowrap [OF okb this rc]
  have xc: "samples sc = produced B2 @ produced B1"
    using cb' lB2 c oka by (simp add: xb state_ok_def length_produced)
  have o: "out_sample sc = 0" using oc ob oa by (simp add: init_state_def)
  have "run init_state (produce pvs) = Inr (sc, [])"
    using ra rb rc by (simp add: split produce_append run_append)
  moreover have "rotate (nsamples - K mod nsamples) (drop K (produced pvs))
                   = produced B2 @ produced B1"
  proof -
    have "drop K (produced pvs) = produced B1 @ produced B2"
      using lA by (simp add: split produced_append length_produced)
    moreover have "nsamples - K mod nsamples = length (produced B1)"
      using lB1 by (simp add: c_def length_produced)
    ultimately show ?thesis by (simp only: rotate_append)
  qed
  ultimately show ?thesis using xc o by simp
qed

lemma overrun_contents:
  assumes len: "length pvs = nsamples + K"
  shows "audio_out (produce pvs @ consume [nsamples]) =
           Inr (mem_bytes (rotate (nsamples - K mod nsamples) (drop K (produced pvs))))"
proof -
  from produce_overrun_state [OF len] obtain s' where
    r: "run init_state (produce pvs) = Inr (s', [])"
    and x: "samples s' = rotate (nsamples - K mod nsamples) (drop K (produced pvs))"
    and o: "out_sample s' = 0"
    by blast
  have l: "length (samples s') = nsamples"
    using len by (simp add: x length_produced)
  have "out_sample s' + sum_list [nsamples] \<le> nsamples" using o by simp
  from run_consume [OF this] obtain sd where
    "run s' (consume [nsamples]) = Inr (sd, mem_bytes (samples s'))"
    using o l by auto
  then show ?thesis
    using r by (simp add: audio_out_def run_append x)
qed


text \<open>
  C2 (overrun), as the code has it. After \<open>nsamples + K\<close> productions with no pull in
  between, one pull of \<open>nsamples\<close> samples delivers the array from index 0: exactly the
  last \<open>nsamples\<close> produced samples (the oldest \<open>K\<close> are overwritten), in their
  production order rotated left by \<open>nsamples - K mod nsamples\<close>, so the newest
  \<open>K mod nsamples\<close> of them come first. When \<open>K\<close> is a multiple of \<open>nsamples\<close> that is
  production order.
\<close>

theorem overrun_keeps_last_rotated:
  assumes "0 < K" and "length pvs = nsamples + K"
  shows "audio_out (produce pvs @ consume [nsamples]) =
           Inr (mem_bytes (rotate (nsamples - K mod nsamples) (drop K (produced pvs))))
         \<and> (K mod nsamples = 0 \<longrightarrow>
              audio_out (produce pvs @ consume [nsamples]) = Inr (mem_bytes (drop K (produced pvs))))"
proof -
  have "length (drop K (produced pvs)) = nsamples"
    using assms(2) by (simp add: length_produced)
  then have "rotate nsamples (drop K (produced pvs)) = drop K (produced pvs)"
    by simp
  then show ?thesis
    using overrun_contents [OF assms(2)] by simp
qed


theorem overrun_keeps_last_rotated_witness:
  "(0 :: nat) < 1 \<and> length (replicate 1024 (0 :: 32 word, 0 :: nat) @ [(1, 0)]) = nsamples + 1
   \<and> audio_out (produce (replicate 1024 (0, 0) @ [(1, 0)]) @ consume [nsamples])
       = Inr (mem_bytes (rotate 1023 (drop 1 (produced (replicate 1024 (0, 0) @ [(1, 0)])))))
   \<and> (0 :: nat) < 1024 \<and> length (replicate 2047 (0 :: 32 word, 0 :: nat) @ [(1, 0)]) = nsamples + 1024
   \<and> 1024 mod nsamples = 0
   \<and> audio_out (produce (replicate 2047 (0, 0) @ [(1, 0)]) @ consume [nsamples])
       = Inr (mem_bytes (drop 1024 (produced (replicate 2047 (0, 0) @ [(1, 0)]))))"
proof -
  have l1: "length (replicate 1024 (0 :: 32 word, 0 :: nat) @ [(1, 0)]) = nsamples + 1"
    and l2: "length (replicate 2047 (0 :: 32 word, 0 :: nat) @ [(1, 0)]) = nsamples + 1024"
    and m: "1024 mod nsamples = 0"
    by (simp_all add: nsamples_def)
  have a: "audio_out (produce (replicate 1024 (0, 0) @ [(1, 0)]) @ consume [nsamples])
       = Inr (mem_bytes (rotate 1023 (drop 1 (produced (replicate 1024 (0, 0) @ [(1, 0)])))))"
    using overrun_keeps_last_rotated [of 1 "replicate 1024 (0, 0) @ [(1, 0)]"] l1
    by (simp add: nsamples_def)
  have "1024 mod nsamples = 0 \<longrightarrow>
          audio_out (produce (replicate 2047 (0, 0) @ [(1, 0)]) @ consume [nsamples])
            = Inr (mem_bytes (drop 1024 (produced (replicate 2047 (0, 0) @ [(1, 0)]))))"
    by (rule overrun_keeps_last_rotated [of 1024 "replicate 2047 (0, 0) @ [(1, 0)]", THEN conjunct2])
      (simp_all add: nsamples_def)
  with m have b: "audio_out (produce (replicate 2047 (0, 0) @ [(1, 0)]) @ consume [nsamples])
            = Inr (mem_bytes (drop 1024 (produced (replicate 2047 (0, 0) @ [(1, 0)]))))"
    by (rule rev_mp)
  from l1 l2 m a b show ?thesis by simp
qed

text \<open>
  With \<open>K = 1\<close>, 1024 samples of level 0 and then one of level 1: the pull starts with the
  newest sample, so it is not the last 1024 produced samples in production order.
\<close>

theorem overrun_not_in_production_order:
  "audio_out (produce (replicate 1024 (0, 0) @ [(1, 0)]) @ consume [nsamples])
     \<noteq> Inr (mem_bytes (drop 1 (produced (replicate 1024 (0, 0) @ [(1, 0)]))))"
proof -
  let ?pvs = "replicate 1024 (0 :: 32 word, 0 :: nat) @ [(1, 0)]"
  let ?a = "speaker_sample (ucast (0 :: 32 word))"
  let ?b = "speaker_sample (ucast (1 :: 32 word))"
  have d: "drop 1 (produced ?pvs) = replicate 1023 ?a @ [?b]"
    by (simp add: produced_def)
  have "rotate (length (replicate 1023 ?a)) (replicate 1023 ?a @ [?b]) = [?b] @ replicate 1023 ?a"
    by (rule rotate_append)
  then have r: "rotate 1023 (drop 1 (produced ?pvs)) = ?b # replicate 1023 ?a"
    unfolding d by simp
  have "length ?pvs = nsamples + 1" by (simp add: nsamples_def)
  from overrun_contents [OF this]
  have out: "audio_out (produce ?pvs @ consume [nsamples]) = Inr (mem_bytes (?b # replicate 1023 ?a))"
    using r by (simp add: nsamples_def)
  have "mem_bytes (?b # replicate 1023 ?a) ! 1 = 0x40"
    by (simp add: mem_bytes_def sample_bytes_def speaker_sample_def)
  moreover have "mem_bytes (drop 1 (produced ?pvs)) ! 1 = 0"
  proof -
    have "mem_bytes (replicate n a @ ys) ! 1 = ucast (drop_bit 8 a)" if "0 < n" for n a ys
      using that by (cases n) (simp_all add: mem_bytes_def sample_bytes_def)
    then have "mem_bytes (drop 1 (produced ?pvs)) ! 1 = ucast (drop_bit 8 ?a)"
      unfolding d by simp
    then show ?thesis by (simp add: speaker_sample_def)
  qed
  ultimately have "mem_bytes (?b # replicate 1023 ?a) ! 1 \<noteq> mem_bytes (drop 1 (produced ?pvs)) ! 1"
    by (simp only:) simp
  then have "mem_bytes (?b # replicate 1023 ?a) \<noteq> mem_bytes (drop 1 (produced ?pvs))"
    by (rule contrapos_nn) (simp only:)
  then show ?thesis using out by simp
qed

section \<open>Properties of the sampler\<close>

lemma appended_sample_ok:
  assumes "state_ok s"
  shows "appended_sample s w = Some (speaker_sample (speaker_value s))"
  using assms
  by (simp add: appended_sample_def speaker_timer_ok [OF assms] state_ok_def)

text \<open>
  C3 (sample amplitude), as the code has it. Every invocation of \<^verbatim>\<open>speaker_timer\<close>
  stores \<^verbatim>\<open>speaker_value * 0x4000\<close>, truncated to 16 bits, at the write cursor: 0 for
  level 0 and 0x4000 (16384, half of the positive range) for level 1.
\<close>

theorem speaker_timer_amplitude:
  assumes "state_ok s"
  shows "appended_sample s w = Some (speaker_sample (speaker_value s))
         \<and> (speaker_value s = 0 \<longrightarrow> appended_sample s w = Some 0)
         \<and> (speaker_value s = 1 \<longrightarrow> appended_sample s w = Some 0x4000)"
  by (simp add: appended_sample_ok [OF assms] speaker_sample_def)

theorem speaker_timer_amplitude_witness:
  "state_ok (speaker_hook init_state 1)
   \<and> speaker_value (speaker_hook init_state 1) = 1
   \<and> appended_sample (speaker_hook init_state 1) 2000 = Some 0x4000"
  using speaker_timer_amplitude [of "speaker_hook init_state 1" 2000]
  by (simp add: speaker_hook_ok init_state_ok) (simp add: speaker_hook_def speaker_sample_def)

text \<open>Level 1 does not give the largest positive 16-bit sample, 0x7fff.\<close>

theorem level_one_is_not_full_scale:
  "appended_sample (speaker_hook init_state 1) 2000 \<noteq> Some 0x7fff"
  using appended_sample_ok [OF speaker_hook_ok [OF init_state_ok], of 1 2000]
  by (simp add: speaker_hook_def speaker_sample_def)

section \<open>Properties of the timer cadence\<close>

lemma deadlines_Suc:
  "deadlines level when (Suc n) = (level when, when) # deadlines level (when + next_cycles) n"
proof -
  have "[0..<Suc n] = 0 # map Suc [0..<n]"
    by (simp add: upt_conv_Cons map_Suc_upt del: upt_Suc)
  then show ?thesis
    by (simp add: deadlines_def comp_def add.assoc del: upt_Suc)
qed

lemma run_timer_count:
  assumes "state_ok s" and "cycle + next_cycles < 2 ^ 64"
    and "cycle < when + next_cycles * n" and "\<forall>k<n. when + next_cycles * k \<le> cycle"
  shows "\<exists>s'. run_timer level s when cycle = Inr (s', n)
           \<and> run s (produce (deadlines level when n)) = Inr (s', [])"
  using assms
proof (induction n arbitrary: s "when")
  case 0
  then show ?case by (subst run_timer.simps) (simp add: deadlines_def produce_Nil)
next
  case (Suc n)
  let ?v = "level when"
  let ?s1 = "s\<lparr>speaker_value := ucast ?v,
                  samples := (samples s)[cur_sample s := speaker_sample (ucast ?v)],
                  cur_sample := (cur_sample s + 1) mod nsamples\<rparr>"
  have due: "when \<le> cycle" using Suc.prems(4) by force
  then have nowrap: "(when + next_cycles) mod 2 ^ 64 = when + next_cycles"
    using Suc.prems(2) by simp
  have pos: "\<not> when + next_cycles \<le> when"
    by (simp add: next_cycles_def audio_frequency_def)
  have t: "speaker_timer (speaker_hook s ?v) when = Inr (?s1, when + next_cycles)"
    using speaker_timer_ok [OF speaker_hook_ok [OF Suc.prems(1)], of ?v "when"] nowrap
    by (simp add: speaker_hook_def)
  have ok1: "state_ok ?s1"
    using Suc.prems(1) by (simp add: state_ok_def nsamples_pos)
  have a: "cycle < when + next_cycles + next_cycles * n"
    using Suc.prems(3) by (simp add: algebra_simps)
  have b: "\<forall>k<n. when + next_cycles + next_cycles * k \<le> cycle"
  proof (intro allI impI)
    fix k assume "k < n"
    then have "when + next_cycles * Suc k \<le> cycle" using Suc.prems(4) by (metis Suc_mono)
    then show "when + next_cycles + next_cycles * k \<le> cycle" by (simp add: algebra_simps)
  qed
  from Suc.IH [OF ok1 Suc.prems(2) a b] obtain s' where
    r: "run_timer level ?s1 (when + next_cycles) cycle = Inr (s', n)"
    and p: "run ?s1 (produce (deadlines level (when + next_cycles) n)) = Inr (s', [])"
    by blast
  have "run_timer level s when cycle = Inr (s', Suc n)"
    using r pos by (subst run_timer.simps) (simp add: due t)
  moreover have "run s (produce (deadlines level when (Suc n))) = Inr (s', [])"
    using p by (simp add: deadlines_Suc produce_Cons run_pin_tick [OF Suc.prems(1)] del: run.simps)
  ultimately show ?case by blast
qed

text \<open>
  C5 (virtual cadence). The period is \<open>16000000 / 8000 = 2000\<close> cycles and the first
  deadline is 125 microseconds, also 2000 cycles. When the core's cycle counter stands
  at \<open>cycle\<close> (within the 64-bit counter), that is after \<open>cycle / 16000000\<close> emulated
  seconds, the timer has been invoked exactly \<open>n = cycle * 8000 div 16000000\<close> times,
  whatever the speaker did, and the array and the write cursor are what appending the
  \<open>n\<close> samples of the successive deadlines, one after the other, to the initial ring
  gives: the cursor stands at \<open>n mod nsamples\<close>, up to \<open>nsamples\<close> samples lie in the
  array from index 0, and from \<open>nsamples\<close> samples on the array holds the last
  \<open>nsamples\<close> of them. After \<open>T\<close> whole seconds \<open>n\<close> is \<open>T * 8000\<close>. Nothing in the run
  refers to wall-clock time.
\<close>

theorem virtual_cadence:
  assumes "cycle + next_cycles < 2 ^ 64" and "n = cycle * audio_frequency div cpu_frequency"
  shows "\<exists>s'. run_timer level init_state first_deadline cycle = Inr (s', n)
           \<and> length (produced (deadlines level first_deadline n)) = n
           \<and> (samples s', cur_sample s')
               = fold spec_produce (produced (deadlines level first_deadline n))
                   (samples init_state, cur_sample init_state)
           \<and> cur_sample s' = n mod nsamples
           \<and> (n \<le> nsamples \<longrightarrow>
                samples s' = produced (deadlines level first_deadline n) @ replicate (nsamples - n) 0)
           \<and> (nsamples \<le> n \<longrightarrow>
                samples s' = rotate (nsamples - (n - nsamples) mod nsamples)
                               (drop (n - nsamples) (produced (deadlines level first_deadline n))))
           \<and> (cycle = T * cpu_frequency \<longrightarrow> n = T * audio_frequency)"
proof -
  let ?ds = "deadlines level first_deadline n"
  have n: "n = cycle div 2000"
    using assms(2) by (simp add: audio_frequency_def cpu_frequency_def)
  have fd: "first_deadline = 2000" and nc: "next_cycles = 2000"
    by (simp_all add: first_deadline_def avr_usec_to_cycles_def cpu_frequency_def
        next_cycles_def audio_frequency_def)
  have le: "2000 * n \<le> cycle"
    unfolding n by (rule times_div_less_eq_dividend)
  have "cycle = 2000 * (cycle div 2000) + cycle mod 2000" by simp
  moreover have "cycle mod 2000 < 2000" by simp
  ultimately have a: "cycle < first_deadline + next_cycles * n"
    unfolding fd nc n by linarith
  have b: "\<forall>k<n. first_deadline + next_cycles * k \<le> cycle"
  proof (intro allI impI)
    fix k assume "k < n"
    then have "2000 * (k + 1) \<le> 2000 * n" by simp
    with le show "first_deadline + next_cycles * k \<le> cycle"
      unfolding fd nc by simp
  qed
  from run_timer_count [OF init_state_ok assms(1) a b, of level] obtain s' where
    r: "run_timer level init_state first_deadline cycle = Inr (s', n)"
    and p: "run init_state (produce ?ds) = Inr (s', [])"
    by blast
  have l: "length ?ds = n" by (simp add: deadlines_def)
  have l': "length (produced ?ds) = n" by (simp add: length_produced l)
  from run_produce_ok [OF init_state_ok, of ?ds] p
  have cur: "cur_sample s' = n mod nsamples"
    by (simp add: l init_state_def)
  have ring: "(samples s', cur_sample s')
                = fold spec_produce (produced ?ds) (samples init_state, cur_sample init_state)"
    by (rule run_produce_ring [OF init_state_ok p])
  have short: "samples s' = produced ?ds @ replicate (nsamples - n) 0" if "n \<le> nsamples"
  proof -
    have "cur_sample init_state + length ?ds \<le> nsamples"
      using that by (simp add: l init_state_def)
    from run_produce_nowrap [OF init_state_ok this p] show ?thesis
      by (simp add: l init_state_def)
  qed
  have long: "samples s' = rotate (nsamples - (n - nsamples) mod nsamples)
                             (drop (n - nsamples) (produced ?ds))" if "nsamples \<le> n"
  proof -
    have "length ?ds = nsamples + (n - nsamples)" using that by (simp add: l)
    from produce_overrun_state [OF this] p show ?thesis by auto
  qed
  have whole: "n = T * audio_frequency" if "cycle = T * cpu_frequency"
    using that unfolding n by (simp add: cpu_frequency_def audio_frequency_def)
  from r l' ring cur short long whole show ?thesis by blast
qed

theorem virtual_cadence_witness:
  "(16000000 :: nat) + next_cycles < 2 ^ 64
   \<and> (8000 :: nat) = 16000000 * audio_frequency div cpu_frequency
   \<and> (\<exists>s'. run_timer (\<lambda>c. 1) init_state first_deadline 16000000 = Inr (s', 8000)
           \<and> cur_sample s' = 832
           \<and> samples s' = replicate 1024 0x4000)
   \<and> (4000 :: nat) + next_cycles < 2 ^ 64
   \<and> (2 :: nat) = 4000 * audio_frequency div cpu_frequency
   \<and> (\<exists>s'. run_timer (\<lambda>c. 1) init_state first_deadline 4000 = Inr (s', 2)
           \<and> cur_sample s' = 2
           \<and> samples s' = [0x4000, 0x4000] @ replicate 1022 0)"
proof -
  have h1: "(16000000 :: nat) + next_cycles < 2 ^ 64"
    by (simp add: next_cycles_def audio_frequency_def)
  have h2: "(8000 :: nat) = 16000000 * audio_frequency div cpu_frequency"
    by (simp add: audio_frequency_def cpu_frequency_def)
  have seq: "produced (deadlines (\<lambda>c. 1) first_deadline 8000) = replicate 8000 0x4000"
    by (simp add: produced_def deadlines_def comp_def map_replicate_const speaker_sample_def)
  have rot: "rotate k (replicate m a) = replicate m a" for k m and a :: "16 word"
    by (induction k) simp_all
  from virtual_cadence [OF h1 h2, of "\<lambda>c. 1" 1] obtain s' where
    r: "run_timer (\<lambda>c. 1) init_state first_deadline 16000000 = Inr (s', 8000)"
    and c: "cur_sample s' = 8000 mod nsamples"
    and x: "nsamples \<le> 8000 \<longrightarrow> samples s' = rotate (nsamples - (8000 - nsamples) mod nsamples)
        (drop (8000 - nsamples) (produced (deadlines (\<lambda>c. 1) first_deadline 8000)))"
    by blast
  have c': "cur_sample s' = 832" using c by (simp add: nsamples_def)
  have "nsamples \<le> 8000" by (simp add: nsamples_def)
  with x have "samples s' = rotate (nsamples - (8000 - nsamples) mod nsamples)
        (drop (8000 - nsamples) (replicate 8000 0x4000))"
    unfolding seq by simp
  then have x': "samples s' = replicate 1024 0x4000"
    by (simp add: nsamples_def rot)
  have g1: "(4000 :: nat) + next_cycles < 2 ^ 64"
    by (simp add: next_cycles_def audio_frequency_def)
  have g2: "(2 :: nat) = 4000 * audio_frequency div cpu_frequency"
    by (simp add: audio_frequency_def cpu_frequency_def)
  have seq2: "produced (deadlines (\<lambda>c. 1) first_deadline 2) = [0x4000, 0x4000]"
    by (simp add: produced_def deadlines_def speaker_sample_def numeral_2_eq_2)
  from virtual_cadence [OF g1 g2, of "\<lambda>c. 1" 0] obtain s2 where
    r2: "run_timer (\<lambda>c. 1) init_state first_deadline 4000 = Inr (s2, 2)"
    and c2: "cur_sample s2 = 2 mod nsamples"
    and x2: "2 \<le> nsamples \<longrightarrow>
              samples s2 = produced (deadlines (\<lambda>c. 1) first_deadline 2) @ replicate (nsamples - 2) 0"
    by blast
  have c2': "cur_sample s2 = 2" using c2 by (simp add: nsamples_def)
  have x2': "samples s2 = [0x4000, 0x4000] @ replicate 1022 0"
    using x2 unfolding seq2 by (simp add: nsamples_def)
  from h1 h2 r c' x' g1 g2 r2 c2' x2' show ?thesis by blast
qed

section \<open>Properties of the audio callback\<close>

lemma audio_callback_in_bounds:
  assumes "audio_callback s len = Inr r"
  shows "out_sample s + nat len div 2 \<le> nsamples"
  using assms by (auto simp: audio_callback_def split: if_splits)

lemma audio_callback_block:
  assumes "out_sample s = 0"
  shows "\<exists>s' out. audio_callback s (2 * int nsamples) = Inr (s', out) \<and> out_sample s' = 0
           \<and> samples s' = samples s \<and> cur_sample s' = cur_sample s"
  using assms by (simp add: audio_callback_samples)

lemma run_fixed_block:
  assumes "state_ok s" and "out_sample s = 0"
    and "\<forall>l. Pull l \<in> set es \<longrightarrow> l = 2 * int nsamples"
  shows "\<exists>s' out. run s es = Inr (s', out) \<and> out_sample s' = 0"
  using assms
proof (induction es arbitrary: s)
  case Nil
  then show ?case by simp
next
  case (Cons e es)
  have rest: "\<forall>l. Pull l \<in> set es \<longrightarrow> l = 2 * int nsamples"
    using Cons.prems(3) by simp
  have "\<exists>s1 o1. step s e = Inr (s1, o1) \<and> state_ok s1 \<and> out_sample s1 = 0"
  proof (cases e)
    case (Pin v)
    then show ?thesis
      using Cons.prems(1,2) by (simp add: speaker_hook_ok) (simp add: speaker_hook_def)
  next
    case (Tick w)
    then show ?thesis
      using Cons.prems(1,2) by (simp add: speaker_timer_ok state_ok_def nsamples_pos)
  next
    case (Pull l)
    then have "l = 2 * int nsamples" using Cons.prems(3) by simp
    then show ?thesis
      using Pull audio_callback_block [OF Cons.prems(2)] Cons.prems(1)
      by (auto simp: state_ok_def)
  qed
  then obtain s1 o1 where s1: "step s e = Inr (s1, o1)" "state_ok s1" "out_sample s1 = 0"
    by blast
  from Cons.IH [OF s1(2,3) rest] obtain s' out where "run s1 es = Inr (s', out)" "out_sample s' = 0"
    by blast
  then show ?case using s1(1) by simp
qed

text \<open>
  C10 (consumer copy stays in bounds). \<^verbatim>\<open>audio_callback\<close> copies without wrapping, so a
  copy that stays inside the array has \<open>out_sample + len / 2 \<le> nsamples\<close>. When every
  pull asks for exactly \<open>nsamples\<close> samples (\<open>2 * nsamples\<close> bytes), then after any
  number of events from the initial state, in particular just before and just after
  every pull, no copy has left the array and \<open>out_sample\<close> is 0.
\<close>

theorem consumer_copy_in_bounds:
  "(audio_callback s len = Inr r \<longrightarrow> out_sample s + nat len div 2 \<le> nsamples)
   \<and> ((\<forall>l. Pull l \<in> set es \<longrightarrow> l = 2 * int nsamples) \<longrightarrow>
        (\<forall>es1. prefix es1 es \<longrightarrow>
           (\<exists>s' out. run init_state es1 = Inr (s', out) \<and> out_sample s' = 0)))"
proof (intro conjI impI allI)
  assume "audio_callback s len = Inr r"
  then show "out_sample s + nat len div 2 \<le> nsamples" by (rule audio_callback_in_bounds)
next
  fix es1
  assume pulls: "\<forall>l. Pull l \<in> set es \<longrightarrow> l = 2 * int nsamples" and pre: "prefix es1 es"
  from pre have "set es1 \<subseteq> set es" by (rule set_mono_prefix)
  with pulls have pulls1: "\<forall>l. Pull l \<in> set es1 \<longrightarrow> l = 2 * int nsamples" by blast
  have "out_sample init_state = 0" by (simp add: init_state_def)
  from run_fixed_block [OF init_state_ok this pulls1]
  show "\<exists>s' out. run init_state es1 = Inr (s', out) \<and> out_sample s' = 0" .
qed

theorem consumer_copy_in_bounds_witness:
  "(\<exists>s' out. audio_callback init_state 2048 = Inr (s', out))
   \<and> out_sample init_state + nat 2048 div 2 \<le> nsamples
   \<and> prefix [Pin 1, Tick 2000, Pull 2048] [Pin 1, Tick 2000, Pull 2048, Tick 4000, Pull 2048]
   \<and> (\<exists>s' out. run init_state [Pin 1, Tick 2000, Pull 2048] = Inr (s', out) \<and> out_sample s' = 0)"
proof -
  let ?es = "[Pin 1, Tick 2000, Pull 2048, Tick 4000, Pull 2048]"
  have "out_sample init_state = 0" by (simp add: init_state_def)
  from audio_callback_block [OF this] obtain s1 o1 where
    cb: "audio_callback init_state 2048 = Inr (s1, o1)"
    by (auto simp: nsamples_def)
  have pulls: "\<forall>l. Pull l \<in> set ?es \<longrightarrow> l = 2 * int nsamples"
    by (simp add: nsamples_def)
  have pre: "prefix [Pin 1, Tick 2000, Pull 2048] ?es" by simp
  from consumer_copy_in_bounds [of init_state 2048 "(s1, o1)" ?es] cb pulls pre
  show ?thesis by blast
qed

section \<open>Properties of the display conversion\<close>

lemma fold_snoc_map: "fold (\<lambda>x p. p @ [f x]) xs p = p @ map f xs"
  by (induction xs arbitrary: p) simp_all

lemma fold_rows: "fold (\<lambda>y p. p @ g y) ys p = p @ concat (map g ys)"
  by (induction ys arbitrary: p) simp_all

lemma length_concat_rows: "length (concat (map (\<lambda>y. map (g y) [0..<w]) [0..<n])) = n * w"
  by (induction n) simp_all

lemma nth_concat_rows:
  assumes "y < n" and "x < w"
  shows "concat (map (\<lambda>y. map (g y) [0..<w]) [0..<n]) ! (y * w + x) = g y x"
  using assms
proof (induction n)
  case 0
  then show ?case by simp
next
  case (Suc n)
  let ?rows = "concat (map (\<lambda>y. map (g y) [0..<w]) [0..<n])"
  have len: "length ?rows = n * w" by (rule length_concat_rows)
  show ?case
  proof (cases "y < n")
    case True
    then have "Suc y * w \<le> n * w" by (intro mult_le_mono1) simp
    then have "y * w + x < n * w" using Suc.prems(2) by simp
    then show ?thesis using Suc.IH [OF True Suc.prems(2)] len by (simp add: nth_append)
  next
    case False
    then have "y = n" using Suc.prems(1) by simp
    then show ?thesis using len Suc.prems(2) by (simp add: nth_append)
  qed
qed

lemma and_7_nat: "(y :: nat) AND 7 = y mod 8"
proof -
  have "y AND mask 3 = y mod 2 ^ 3"
    by (simp only: take_bit_eq_mask [symmetric] take_bit_eq_mod)
  then show ?thesis by (simp add: mask_eq_exp_minus_1)
qed

lemma shifted_bit: "(drop_bit n (v :: 8 word) AND 1 \<noteq> 0) = bit v n"
  by (simp add: and_one_eq bit_iff_odd_drop_bit mod_2_eq_odd)

lemma draw_display_rows:
  "draw_display vram =
     concat (map (\<lambda>y. map (\<lambda>x. if bit (vram (y div 8) x) (y mod 8) then 0xffffff else 0) [0..<128])
       [0..<64])"
  by (simp add: draw_display_def fold_snoc_map fold_rows shifted_bit and_7_nat)

text \<open>
  C4 (bitmap to pixels). The frame has 128 * 64 pixels; for every framebuffer and all
  \<open>x < 128\<close>, \<open>y < 64\<close>, pixel \<open>(x, y)\<close> is white (0xffffff) when bit \<open>y mod 8\<close> of page
  \<open>y div 8\<close> at column \<open>x\<close> is set and black (0) otherwise. For the framebuffer whose
  only set bit is bit 0 of page 0 at column 0, pixel \<open>(0, 0)\<close> is white and every other
  pixel is black.
\<close>

theorem draw_display_pixels:
  "length (draw_display vram) = 128 * 64
   \<and> (x < 128 \<and> y < 64 \<longrightarrow>
        pixel (draw_display vram) x y = (if bit (vram (y div 8) x) (y mod 8) then 0xffffff else 0))
   \<and> (x < 128 \<and> y < 64 \<longrightarrow>
        pixel (draw_display (\<lambda>page col. if page = 0 \<and> col = 0 then 1 else 0)) x y
          = (if x = 0 \<and> y = 0 then 0xffffff else 0))"
proof (intro conjI impI)
  show "length (draw_display vram) = 128 * 64"
    unfolding draw_display_rows by (simp only: length_concat_rows)
next
  assume "x < 128 \<and> y < 64"
  then show "pixel (draw_display vram) x y
               = (if bit (vram (y div 8) x) (y mod 8) then 0xffffff else 0)"
    unfolding draw_display_rows pixel_def by (simp only: nth_concat_rows)
next
  assume xy: "x < 128 \<and> y < 64"
  let ?v = "\<lambda>page col. if page = 0 \<and> col = 0 then 1 else (0 :: 8 word)"
  have "pixel (draw_display ?v) x y = (if bit (?v (y div 8) x) (y mod 8) then 0xffffff else 0)"
    using xy unfolding draw_display_rows pixel_def by (simp only: nth_concat_rows)
  moreover have "bit (?v (y div 8) x) (y mod 8) \<longleftrightarrow> x = 0 \<and> y = 0"
  proof (cases "y div 8 = 0 \<and> x = 0")
    case True
    then have "y < 8" by (simp add: div_eq_0_iff)
    then show ?thesis using True by (simp add: bit_1_iff)
  next
    case False
    then show ?thesis by auto
  qed
  ultimately show "pixel (draw_display ?v) x y = (if x = 0 \<and> y = 0 then 0xffffff else 0)"
    by simp
qed

theorem draw_display_pixels_witness:
  "(3 :: nat) < 128 \<and> (10 :: nat) < 64
   \<and> pixel (draw_display (\<lambda>page col. if page = 1 \<and> col = 3 then 4 else 0)) 3 10 = 0xffffff
   \<and> pixel (draw_display (\<lambda>page col. if page = 0 \<and> col = 0 then 1 else 0)) 3 10 = 0"
  using draw_display_pixels [of "\<lambda>page col. if page = 1 \<and> col = 3 then 4 else 0" 3 10]
  by (simp add: bit_numeral_simps)

section \<open>Properties of the input mapping\<close>

text \<open>
  C6 (input mapping). For a scancode bound to a button, a key-down event sets the
  button's pin to 0 and a key-up event sets it to 1, and nothing else changes; for any
  other scancode both events leave the state, all pin levels included, as it was.
\<close>

theorem input_mapping:
  "(map_of key_bindings sc = Some b \<longrightarrow>
      handle_event s \<lparr>ev_type = SDL_KEYDOWN, ev_scancode = sc\<rparr>
        = s\<lparr>pins := (pins s)(button_pin b := 0)\<rparr>
      \<and> handle_event s \<lparr>ev_type = SDL_KEYUP, ev_scancode = sc\<rparr>
        = s\<lparr>pins := (pins s)(button_pin b := 1)\<rparr>)
   \<and> (map_of key_bindings sc = None \<longrightarrow>
      handle_event s \<lparr>ev_type = SDL_KEYDOWN, ev_scancode = sc\<rparr> = s
      \<and> handle_event s \<lparr>ev_type = SDL_KEYUP, ev_scancode = sc\<rparr> = s)"
  by (cases sc) (auto simp: key_bindings_def handle_event_def key_event_def avr_raise_irq_def)

theorem input_mapping_witness:
  "map_of key_bindings SDL_SCANCODE_S = Some BUTTON_B
   \<and> map_of key_bindings (SDL_SCANCODE_OTHER 44) = None
   \<and> pins (handle_event \<lparr>running = True, pins = (\<lambda>p. 1)\<rparr>
            \<lparr>ev_type = SDL_KEYDOWN, ev_scancode = SDL_SCANCODE_S\<rparr>) (CHR ''B'', 4) = 0
   \<and> handle_event \<lparr>running = True, pins = (\<lambda>p. 1)\<rparr>
        \<lparr>ev_type = SDL_KEYUP, ev_scancode = SDL_SCANCODE_OTHER 44\<rparr>
       = \<lparr>running = True, pins = (\<lambda>p. 1)\<rparr>"
  using input_mapping [of SDL_SCANCODE_S BUTTON_B "\<lparr>running = True, pins = (\<lambda>p. 1)\<rparr>"]
    input_mapping [of "SDL_SCANCODE_OTHER 44" BUTTON_B "\<lparr>running = True, pins = (\<lambda>p. 1)\<rparr>"]
  by (simp add: key_bindings_def)

section \<open>Properties of start-up\<close>

lemma strstr_sublist: "strstr haystack needle \<noteq> None \<longleftrightarrow> sublist needle haystack"
  by (induction haystack) (auto simp: sublist_Cons_right)

lemma load_firmware_substring:
  "load_firmware path =
     (if sublist ''.elf'' path then [Elf_read_firmware path, Avr_load_firmware]
      else [Read_ihex_file path, Avr_loadcode])"
  unfolding load_firmware_def strstr_sublist by simp

text \<open>
  C8 (firmware format). The usage line names the two formats by their extension,
  \<^verbatim>\<open>firmware.elf|firmware.hex\<close>, and the test looks for \<^verbatim>\<open>.elf\<close> with \<^verbatim>\<open>strstr\<close>, which finds
  it anywhere in the path: \<^verbatim>\<open>game.elf.hex\<close> and \<^verbatim>\<open>my.elf.d/game.hex\<close> do not end in
  \<^verbatim>\<open>.elf\<close> and are handed to the ELF loader all the same.
\<close>

theorem elf_in_the_middle_loads_as_elf:
  "load_firmware ''game.elf.hex'' = [Elf_read_firmware ''game.elf.hex'', Avr_load_firmware]
   \<and> \<not> suffix ''.elf'' ''game.elf.hex''
   \<and> load_firmware ''my.elf.d/game.hex''
       = [Elf_read_firmware ''my.elf.d/game.hex'', Avr_load_firmware]
   \<and> \<not> suffix ''.elf'' ''my.elf.d/game.hex''"
  by (simp add: load_firmware_def suffix_to_prefix)




end
